theory Spec2Isabelle
  imports Complex_Main "HOL-Library.AList" "HOL-Library.Multiset"
begin

section \<open>Regular expressions as used by profiler.py\<close>

text \<open>
  The three patterns of \<^verbatim>\<open>parseMessages\<close> use only single-character classes,
  the greedy quantifiers \<^verbatim>\<open>*\<close> and \<^verbatim>\<open>+\<close> on such a class, and capture groups.
  A pattern is a list of items; \<open>rmatch\<close> is the backtracking matcher behind \<^verbatim>\<open>re.match\<close>
  (anchored at the start, not at the end; a greedy quantifier takes the longest run first and
  gives characters back one at a time) and returns the texts of the groups; \<open>re_search\<close> is
  \<^verbatim>\<open>re.search\<close>, which tries every start position from the left.
  Characters are code points below 256, where \<^verbatim>\<open>\d\<close> is \<^verbatim>\<open>[0-9]\<close>.
\<close>

datatype cls = AnyChar | Digit | Lit char

definition newline :: char where
  "newline = CHR 0x0A"

definition is_digit :: "char \<Rightarrow> bool" where
  "is_digit c = (c \<in> set ''0123456789'')"

fun cls_match :: "cls \<Rightarrow> char \<Rightarrow> bool" where
  "cls_match AnyChar c = (c \<noteq> newline)"
| "cls_match Digit c = is_digit c"
| "cls_match (Lit a) c = (c = a)"

datatype item = One cls | Star cls | Plus cls | GOpen | GClose

text \<open>The text of the group that is open, if one is, grows with every character consumed.\<close>

fun push :: "char \<Rightarrow> string option \<Rightarrow> string option" where
  "push x None = None"
| "push x (Some g) = Some (g @ [x])"

fun close_group :: "string option \<Rightarrow> string" where
  "close_group None = []"
| "close_group (Some g) = g"

fun rmatch :: "item list \<Rightarrow> string \<Rightarrow> string list \<Rightarrow> string option \<Rightarrow> string list option" where
  "rmatch [] s caps cur = Some caps"
| "rmatch (One c # r) [] caps cur = None"
| "rmatch (One c # r) (x # xs) caps cur =
     (if cls_match c x then rmatch r xs caps (push x cur) else None)"
| "rmatch (Plus c # r) [] caps cur = None"
| "rmatch (Plus c # r) (x # xs) caps cur =
     (if cls_match c x then rmatch (Star c # r) xs caps (push x cur) else None)"
| "rmatch (Star c # r) [] caps cur = rmatch r [] caps cur"
| "rmatch (Star c # r) (x # xs) caps cur =
     (if cls_match c x
      then (case rmatch (Star c # r) xs caps (push x cur) of
              Some g \<Rightarrow> Some g
            | None \<Rightarrow> rmatch r (x # xs) caps cur)
      else rmatch r (x # xs) caps cur)"
| "rmatch (GOpen # r) s caps cur = rmatch r s caps (Some [])"
| "rmatch (GClose # r) s caps cur = rmatch r s (caps @ [close_group cur]) None"

definition re_match :: "item list \<Rightarrow> string \<Rightarrow> string list option" where
  "re_match p s = rmatch p s [] None"

fun re_search :: "item list \<Rightarrow> string \<Rightarrow> string list option" where
  "re_search p [] = re_match p []"
| "re_search p (x # xs) =
     (case re_match p (x # xs) of Some g \<Rightarrow> Some g | None \<Rightarrow> re_search p xs)"

definition lits :: "string \<Rightarrow> item list" where
  "lits s = map (\<lambda>c. One (Lit c)) s"

definition SCAN_HEADER :: "item list" where
  "SCAN_HEADER = lits ''Rule Profile Statistics (all rules)''"

definition scanPid :: "item list" where
  "scanPid = [Star AnyChar, One (Lit CHR ''[''), GOpen, Plus Digit, GClose,
              One (Lit CHR '']''), One (Lit CHR '':''), Star AnyChar]"

abbreviation sp :: item where
  "sp \<equiv> Plus (Lit CHR '' '')"

abbreviation int_group :: "item list" where
  "int_group \<equiv> [GOpen, Plus Digit, GClose]"

abbreviation dec_group :: "item list" where
  "dec_group \<equiv> [GOpen, Plus Digit, One (Lit CHR ''.''), Plus Digit, GClose]"

definition scanStatLine :: "item list" where
  "scanStatLine =
     [Star AnyChar, One (Lit CHR ''[''), Plus Digit, One (Lit CHR '']''), One (Lit CHR '':'')]
     @ sp # int_group @ sp # int_group @ sp # int_group @ sp # int_group
     @ sp # int_group @ sp # int_group @ sp # int_group @ sp # int_group
     @ sp # dec_group @ sp # dec_group @ sp # dec_group @ sp # int_group"

section \<open>Strings, dictionaries and floats of the Python runtime\<close>

text \<open>\<^verbatim>\<open>str.rstrip()\<close> removes trailing whitespace (the code points below 256 that
  \<^verbatim>\<open>str.isspace\<close> accepts).\<close>

definition is_space :: "char \<Rightarrow> bool" where
  "is_space c = (c \<in> set [CHR 0x09, CHR 0x0A, CHR 0x0B, CHR 0x0C, CHR 0x0D, CHR 0x1C, CHR 0x1D,
                           CHR 0x1E, CHR 0x1F, CHR 0x20, CHR 0x85, CHR 0xA0])"

definition rstrip :: "string \<Rightarrow> string" where
  "rstrip s = rev (dropWhile is_space (rev s))"

text \<open>\<^verbatim>\<open>k.split(":")\<close>: every separator ends a piece.\<close>

fun split_on :: "char \<Rightarrow> string \<Rightarrow> string list" where
  "split_on c [] = [[]]"
| "split_on c (x # xs) =
     (if x = c then [] # split_on c xs
      else (let ws = split_on c xs in (x # hd ws) # tl ws))"

text \<open>\<^verbatim>\<open>"{}".format(n)\<close> for the non-negative integer \<^verbatim>\<open>len(logStreams)\<close>.\<close>

definition digit_char :: "nat \<Rightarrow> char" where
  "digit_char d = ''0123456789'' ! d"

fun str_nat :: "nat \<Rightarrow> string" where
  "str_nat n = (if n < 10 then [digit_char n] else str_nat (n div 10) @ [digit_char (n mod 10)])"

declare str_nat.simps [simp del]

text \<open>\<^verbatim>\<open>"{:>w}".format(a)\<close> pads on the left with spaces and never truncates.\<close>

definition rjust :: "nat \<Rightarrow> string \<Rightarrow> string" where
  "rjust w a = replicate (w - length a) CHR '' '' @ a"

text \<open>
  A dictionary is an association list in insertion order, as \<^verbatim>\<open>dict\<close> iterates
  (Python 3.7 and later):
  \<^const>\<open>AList.update\<close> replaces the value of a key in place and puts a new key last.
  \<open>append_to k x d\<close> is \<^verbatim>\<open>if k not in d: d[k] = []\<close> followed by \<^verbatim>\<open>d[k].append(x)\<close>.
\<close>

definition append_to :: "'k \<Rightarrow> 'a \<Rightarrow> ('k \<times> 'a list) list \<Rightarrow> ('k \<times> 'a list) list" where
  "append_to k x d =
     (case map_of d k of
        None \<Rightarrow> AList.update k [x] d
      | Some vs \<Rightarrow> AList.update k (vs @ [x]) d)"

text \<open>
  Binary floating point is not modelled: the operations the program applies to floats are
  parameters, and the type of floats is any linear order (the values that arise are
  non-negative and never NaN, so \<^verbatim>\<open>sorted\<close> compares them totally).
\<close>

record 'f float_ops =
  float_of :: "string \<Rightarrow> 'f"      \<comment> \<open>\<^verbatim>\<open>float(s)\<close> on a captured field\<close>
  fsum :: "'f list \<Rightarrow> 'f"          \<comment> \<open>\<^verbatim>\<open>sum(xs)\<close>\<close>
  fdiv :: "'f \<Rightarrow> nat \<Rightarrow> 'f"        \<comment> \<open>\<^verbatim>\<open>x / n\<close> for \<^verbatim>\<open>n = len(xs)\<close>, not zero\<close>
  round1 :: "'f \<Rightarrow> 'f"             \<comment> \<open>\<^verbatim>\<open>round(x, 1)\<close>\<close>
  fstr :: "'f \<Rightarrow> string"           \<comment> \<open>the text of a float under \<^verbatim>\<open>"{:>w}"\<close>, before padding\<close>

datatype exn = UnboundLocalError | ZeroDivisionError | ValueError | KeyError

section \<open>parseMessages\<close>

subsection \<open>Separating the message streams by pid (lines 80 to 99)\<close>

record demux =
  logStreamList :: "string list"
  logStreams :: "(string \<times> string list) list"

definition demux_init :: demux where
  "demux_init = \<lparr>logStreamList = [], logStreams = []\<rparr>"

definition has_header :: "string \<Rightarrow> bool" where
  "has_header line = (re_search SCAN_HEADER line \<noteq> None)"

definition demux_line :: "string \<Rightarrow> demux \<Rightarrow> demux" where
  "demux_line line st =
     (case re_match scanPid line of
        Some (pid # _) \<Rightarrow>
          (let lsl = (if has_header line then logStreamList st @ [pid] else logStreamList st)
           in if pid \<in> set lsl
              then \<lparr>logStreamList = lsl, logStreams = append_to pid (rstrip line) (logStreams st)\<rparr>
              else \<lparr>logStreamList = lsl, logStreams = logStreams st\<rparr>)
      | _ \<Rightarrow> st)"

definition demux_lines :: "string list \<Rightarrow> demux" where
  "demux_lines ls = fold demux_line ls demux_init"

subsection \<open>Parsing the tables (lines 101 to 130)\<close>

datatype 'a stats =
  Stats (rank: 'a) (checks: 'a) (matches: 'a) (alerts: 'a) (ms: 'a)
        (ac: 'a) (am: 'a) (an: 'a) (dis: 'a)

definition no_stats :: "'a list stats" where
  "no_stats = Stats [] [] [] [] [] [] [] [] []"

definition append_stats :: "'a list stats \<Rightarrow> 'a stats \<Rightarrow> 'a list stats" where
  "append_stats sT v =
     Stats (rank sT @ [rank v]) (checks sT @ [checks v]) (matches sT @ [matches v])
           (alerts sT @ [alerts v]) (ms sT @ [ms v]) (ac sT @ [ac v]) (am sT @ [am v])
           (an sT @ [an v]) (dis sT @ [dis v])"

definition add_row ::
  "string \<Rightarrow> 'a stats \<Rightarrow> (string \<times> 'a list stats) list \<Rightarrow> (string \<times> 'a list stats) list" where
  "add_row sig v t =
     (case map_of t sig of
        None \<Rightarrow> AList.update sig (append_stats no_stats v) t
      | Some sT \<Rightarrow> AList.update sig (append_stats sT v) t)"

text \<open>The signature and the nine floats of the twelve groups (line 107 to 110 and 122 to 130),
  and the row of a line, if \<open>scanStatLine\<close> matches it.\<close>

definition row_values :: "'f float_ops \<Rightarrow> string list \<Rightarrow> (string \<times> 'f stats) option" where
  "row_values ops groups =
     (case groups of
        [rank', sid, gid, rev', checks', matches', alerts', ms', ac', am', an', dis'] \<Rightarrow>
          Some (gid @ '':'' @ sid @ '':'' @ rev',
                Stats (float_of ops rank') (float_of ops checks') (float_of ops matches')
                      (float_of ops alerts') (float_of ops ms') (float_of ops ac')
                      (float_of ops am') (float_of ops an') (float_of ops dis'))
      | _ \<Rightarrow> None)"

definition stat_row :: "'f float_ops \<Rightarrow> string \<Rightarrow> (string \<times> 'f stats) option" where
  "stat_row ops line =
     (case re_match scanStatLine line of None \<Rightarrow> None | Some groups \<Rightarrow> row_values ops groups)"

definition stat_line ::
  "'f float_ops \<Rightarrow> string \<Rightarrow> (string \<times> 'f list stats) list \<Rightarrow> (string \<times> 'f list stats) list" where
  "stat_line ops line t =
     (case stat_row ops line of None \<Rightarrow> t | Some (sig, v) \<Rightarrow> add_row sig v t)"

definition statsTable ::
  "'f float_ops \<Rightarrow> (string \<times> string list) list \<Rightarrow> (string \<times> 'f list stats) list" where
  "statsTable ops streams = fold (\<lambda>(k, ls) t. fold (stat_line ops) ls t) streams []"

subsection \<open>Averages (lines 132 to 148)\<close>

definition mean1 :: "'f float_ops \<Rightarrow> 'f list \<Rightarrow> exn + 'f" where
  "mean1 ops xs =
     (if length xs = 0 then Inl ZeroDivisionError
      else Inr (round1 ops (fdiv ops (fsum ops xs) (length xs))))"

definition bind_exn :: "exn + 'a \<Rightarrow> ('a \<Rightarrow> exn + 'b) \<Rightarrow> exn + 'b" where
  "bind_exn m f = (case m of Inl e \<Rightarrow> Inl e | Inr x \<Rightarrow> f x)"

definition averages :: "'f float_ops \<Rightarrow> 'f list stats \<Rightarrow> exn + 'f stats" where
  "averages ops sT =
     bind_exn (mean1 ops (rank sT)) (\<lambda>r.
     bind_exn (mean1 ops (checks sT)) (\<lambda>c.
     bind_exn (mean1 ops (matches sT)) (\<lambda>m.
     bind_exn (mean1 ops (alerts sT)) (\<lambda>a.
     bind_exn (mean1 ops (ms sT)) (\<lambda>u.
     bind_exn (mean1 ops (ac sT)) (\<lambda>x.
     bind_exn (mean1 ops (am sT)) (\<lambda>y.
     bind_exn (mean1 ops (an sT)) (\<lambda>z.
     bind_exn (mean1 ops (dis sT)) (\<lambda>d.
     Inr (Stats r c m a u x y z d))))))))))"

fun avg_loop ::
  "'f float_ops \<Rightarrow> (string \<times> 'f list stats) list \<Rightarrow> (string \<times> 'f stats) list
     \<Rightarrow> exn + (string \<times> 'f stats) list" where
  "avg_loop ops [] avg = Inr avg"
| "avg_loop ops ((k, sT) # rest) avg =
     (case averages ops sT of
        Inl e \<Rightarrow> Inl e
      | Inr aST \<Rightarrow> avg_loop ops rest (AList.update k aST avg))"

definition avgStatsTable ::
  "'f float_ops \<Rightarrow> (string \<times> 'f list stats) list \<Rightarrow> exn + (string \<times> 'f stats) list" where
  "avgStatsTable ops t = avg_loop ops t []"

subsection \<open>Printing the sorted averages (lines 150 to 168)\<close>

definition OUTPUT_HEADER :: "nat \<Rightarrow> string" where
  "OUTPUT_HEADER n =
     ''Average Rule Profile Statistics (across '' @ str_nat n @ '' processes)'' @ '' (all rules)''"

definition OUTPUT_HEADINGS :: "string list" where
  "OUTPUT_HEADINGS = [''Num'', ''SID'', ''GID'', ''Rev'', ''Checks'', ''Matches'',
                      ''Alerts'', ''Microsecs'', ''Avg/Check'', ''Avg/Match'',
                      ''Avg/Nonmatch'', ''dis'']"

definition OUTPUT_WIDTHS :: "nat list" where
  "OUTPUT_WIDTHS = [6, 8, 3, 3, 11, 11, 9, 19, 9, 9, 12, 9]"

definition OUTPUT_FORMAT :: "string list \<Rightarrow> string" where
  "OUTPUT_FORMAT args = concat (map2 (\<lambda>w a. CHR '' '' # rjust w a) OUTPUT_WIDTHS args)"

definition sorted_keys :: "(string \<times> ('f::linorder) stats) list \<Rightarrow> string list" where
  "sorted_keys avg = sort_key (\<lambda>name. rank (the (map_of avg name))) (map fst avg)"

definition data_row :: "'f float_ops \<Rightarrow> string \<Rightarrow> string \<Rightarrow> string \<Rightarrow> 'f stats \<Rightarrow> string" where
  "data_row ops gid sid rev' vals =
     OUTPUT_FORMAT [fstr ops (rank vals), sid, gid, rev',
                    fstr ops (checks vals), fstr ops (matches vals), fstr ops (alerts vals),
                    fstr ops (ms vals), fstr ops (ac vals), fstr ops (am vals),
                    fstr ops (an vals), fstr ops (dis vals)]"

text \<open>The rows printed by the last loop, and the exception that ends it, if any.\<close>

fun print_rows ::
  "'f float_ops \<Rightarrow> (string \<times> 'f stats) list \<Rightarrow> string list \<Rightarrow> string list \<times> exn option" where
  "print_rows ops avg [] = ([], None)"
| "print_rows ops avg (k # ks) =
     (case split_on CHR '':'' k of
        [gid, sid, rev'] \<Rightarrow>
          (case map_of avg k of
             None \<Rightarrow> ([], Some KeyError)
           | Some vals \<Rightarrow>
               (let (rows, e) = print_rows ops avg ks
                in (data_row ops gid sid rev' vals # rows, e)))
      | _ \<Rightarrow> ([], Some ValueError))"

definition report_head :: "nat \<Rightarrow> string list" where
  "report_head n =
     (let outHdr = OUTPUT_HEADER n;
          underLines = map (\<lambda>hdr. replicate (length hdr) CHR ''='') OUTPUT_HEADINGS
      in [CHR '' '' # outHdr,
          CHR '' '' # replicate (length outHdr) CHR ''='',
          OUTPUT_FORMAT OUTPUT_HEADINGS,
          OUTPUT_FORMAT underLines])"

text \<open>Everything after the input is opened: the lines written to standard output and the
  exception that ends the run, if any.\<close>

definition run_lines :: "('f::linorder) float_ops \<Rightarrow> string list \<Rightarrow> string list \<times> exn option" where
  "run_lines ops ls =
     (let streams = logStreams (demux_lines ls)
      in case avgStatsTable ops (statsTable ops streams) of
           Inl e \<Rightarrow> ([], Some e)
         | Inr avg \<Rightarrow>
             (let (rows, e) = print_rows ops avg (sorted_keys avg)
              in (report_head (length streams) @ rows, e)))"

subsection \<open>Opening the input (lines 70 to 78)\<close>

record env =
  files :: "string \<Rightarrow> string list option"   \<comment> \<open>\<^verbatim>\<open>open(fn, 'r')\<close>: the lines, or a failure\<close>
  stdin :: "string list"

record outcome =
  stderr :: "string list"
  stdout :: "string list"
  raised :: "exn option"

text \<open>When \<^verbatim>\<open>open\<close> fails the handler only prints, \<^verbatim>\<open>fh\<close> stays unbound and the
  \<^verbatim>\<open>for\<close> statement of line 89 raises.\<close>

definition parseMessages :: "('f::linorder) float_ops \<Rightarrow> env \<Rightarrow> string option \<Rightarrow> outcome" where
  "parseMessages ops e fn =
     (case fn of
        Some (c # cs) \<Rightarrow>
          (case files e (c # cs) of
             Some ls \<Rightarrow> \<lparr>stderr = [], stdout = fst (run_lines ops ls), raised = snd (run_lines ops ls)\<rparr>
           | None \<Rightarrow> \<lparr>stderr = [''Error opening '' @ c # cs], stdout = [],
                      raised = Some UnboundLocalError\<rparr>)
      | _ \<Rightarrow> \<lparr>stderr = [], stdout = fst (run_lines ops (stdin e)), raised = snd (run_lines ops (stdin e))\<rparr>)"

section \<open>Auxiliary notions for the verification\<close>

text \<open>The text added to an open group by a run of characters.\<close>

definition pushs :: "string \<Rightarrow> string option \<Rightarrow> string option" where
  "pushs w cur = map_option (\<lambda>g. g @ w) cur"

text \<open>
  A pid token \<^verbatim>\<open>[<digits>]:\<close> starting at the head of a string, and the tokens of a line from
  left to right (those that start before the first newline, which \<^verbatim>\<open>.\<close> does not cross).
\<close>

definition pid_token :: "string \<Rightarrow> string option" where
  "pid_token s =
     (case s of
        [] \<Rightarrow> None
      | x # r \<Rightarrow>
          if x = CHR ''['' \<and> takeWhile is_digit r \<noteq> [] \<and> take 2 (dropWhile is_digit r) = '']:''
          then Some (takeWhile is_digit r) else None)"

fun pid_tokens :: "string \<Rightarrow> string list" where
  "pid_tokens [] = []"
| "pid_tokens (x # xs) =
     (if x = newline then []
      else (case pid_token (x # xs) of Some ds \<Rightarrow> [ds] | None \<Rightarrow> []) @ pid_tokens xs)"

text \<open>
  The pid of a line, the lines that bear a pid (in input order), whether a pid is eligible
  (one of its lines contains the header literal), and the lines of a pid from its first
  header line onward, stripped as \<open>demux_line\<close> stores them.
\<close>

definition pid_of :: "string \<Rightarrow> string option" where
  "pid_of line = (case re_match scanPid line of Some (pid # _) \<Rightarrow> Some pid | _ \<Rightarrow> None)"

definition stream_of :: "string \<Rightarrow> string list \<Rightarrow> string list" where
  "stream_of p ls = filter (\<lambda>l. pid_of l = Some p) ls"

definition eligible :: "string list \<Rightarrow> string \<Rightarrow> bool" where
  "eligible ls p = list_ex has_header (stream_of p ls)"

definition from_header :: "string \<Rightarrow> string list \<Rightarrow> string list" where
  "from_header p ls = map rstrip (dropWhile (\<lambda>l. \<not> has_header l) (stream_of p ls))"

text \<open>
  An instance of the float operations for evaluating the model on concrete inputs: exact decimal
  arithmetic on rationals, rounding halves to even. It agrees with binary floating point
  wherever every value involved is exactly representable and has at most one decimal.
\<close>

definition nat_of_digits :: "string \<Rightarrow> nat" where
  "nat_of_digits s = foldl (\<lambda>a c. 10 * a + (of_char c - 48)) 0 s"

definition exact_float :: "string \<Rightarrow> rat" where
  "exact_float s =
     (let a = takeWhile (\<lambda>c. c \<noteq> CHR ''.'') s;
          b = drop 1 (dropWhile (\<lambda>c. c \<noteq> CHR ''.'') s)
      in of_nat (nat_of_digits a) + of_nat (nat_of_digits b) / 10 ^ length b)"

definition exact_round1 :: "rat \<Rightarrow> rat" where
  "exact_round1 x =
     (let y = x * 10; f = \<lfloor>y\<rfloor>; d = y - of_int f
      in if d < 1 / 2 then of_int f / 10
         else if 1 / 2 < d then of_int (f + 1) / 10
         else if even f then of_int f / 10 else of_int (f + 1) / 10)"

definition exact_str :: "rat \<Rightarrow> string" where
  "exact_str x = (let t = nat \<lfloor>x * 10\<rfloor> in str_nat (t div 10) @ ''.'' @ str_nat (t mod 10))"

definition exact_ops :: "rat float_ops" where
  "exact_ops = \<lparr>float_of = exact_float, fsum = foldl (+) 0, fdiv = (\<lambda>x n. x / of_nat n),
                round1 = exact_round1, fstr = exact_str\<rparr>"

text \<open>
  A greedy quantifier never has to give characters back when what follows it either cannot
  start with a character of its class or cannot fail.
\<close>

definition greedy_safe :: "cls \<Rightarrow> item list \<Rightarrow> bool" where
  "greedy_safe c r \<longleftrightarrow>
     (\<forall>x xs caps cur. cls_match c x \<longrightarrow> rmatch r (x # xs) caps cur = None) \<or>
     (\<forall>s caps cur. rmatch r s caps cur \<noteq> None)"

text \<open>
  The shape of a numeric row in words: an integer field is a non-empty run of digits, a decimal
  field is two such runs around one dot, a separator is a non-empty run of spaces. The twelve
  fields are rank, sid, gid, rev, checks, matches, alerts, microsecs (integers), avg/check,
  avg/match, avg/nonmatch (decimals) and dis (integer).
\<close>

datatype shape = IntF | DecF

definition is_blank :: "char \<Rightarrow> bool" where
  "is_blank c = (c = CHR '' '')"

definition is_int :: "string \<Rightarrow> bool" where
  "is_int f \<longleftrightarrow> f \<noteq> [] \<and> list_all is_digit f"

definition is_dec :: "string \<Rightarrow> bool" where
  "is_dec f \<longleftrightarrow> (\<exists>a b. f = a @ ''.'' @ b \<and> is_int a \<and> is_int b)"

definition is_spaces :: "string \<Rightarrow> bool" where
  "is_spaces w \<longleftrightarrow> w \<noteq> [] \<and> list_all is_blank w"

fun has_shape :: "shape \<Rightarrow> string \<Rightarrow> bool" where
  "has_shape IntF f = is_int f"
| "has_shape DecF f = is_dec f"

definition row_shapes :: "shape list" where
  "row_shapes = [IntF, IntF, IntF, IntF, IntF, IntF, IntF, IntF, DecF, DecF, DecF, IntF]"

text \<open>
  \<open>row_form line fs\<close>: the line holds, after anything without a newline, a pid token, then the
  fields \<open>fs\<close> of the twelve shapes, each after a run of spaces, then anything.
\<close>

definition row_form :: "string \<Rightarrow> string list \<Rightarrow> bool" where
  "row_form line fs \<longleftrightarrow>
     (\<exists>pre ds sps rest.
        line = pre @ ''['' @ ds @ '']:'' @ concat (map2 (@) sps fs) @ rest \<and>
        newline \<notin> set pre \<and> is_int ds \<and>
        length sps = length fs \<and> list_all is_spaces sps \<and> list_all2 has_shape row_shapes fs)"

text \<open>The pattern of a field, and a reader that takes the longest runs, as the matcher does.\<close>

fun shape_items :: "shape \<Rightarrow> item list" where
  "shape_items IntF = int_group"
| "shape_items DecF = dec_group"

definition fields_items :: "shape list \<Rightarrow> item list" where
  "fields_items shs = concat (map (\<lambda>sh. sp # shape_items sh) shs)"

definition read_int :: "string \<Rightarrow> (string \<times> string) option" where
  "read_int s =
     (if takeWhile is_digit s = [] then None
      else Some (takeWhile is_digit s, dropWhile is_digit s))"

definition read_dec :: "string \<Rightarrow> (string \<times> string) option" where
  "read_dec s =
     (case read_int s of
        None \<Rightarrow> None
      | Some (a, r) \<Rightarrow>
          (case r of
             [] \<Rightarrow> None
           | x # r' \<Rightarrow>
               if x = CHR ''.''
               then (case read_int r' of None \<Rightarrow> None | Some (b, r'') \<Rightarrow> Some (a @ ''.'' @ b, r''))
               else None))"

fun read_shape :: "shape \<Rightarrow> string \<Rightarrow> (string \<times> string) option" where
  "read_shape IntF s = read_int s"
| "read_shape DecF s = read_dec s"

definition read_field :: "shape \<Rightarrow> string \<Rightarrow> (string \<times> string) option" where
  "read_field sh s =
     (if takeWhile is_blank s = [] then None else read_shape sh (dropWhile is_blank s))"

fun read_fields :: "shape list \<Rightarrow> string \<Rightarrow> string list option" where
  "read_fields [] s = Some []"
| "read_fields (sh # shs) s =
     (case read_field sh s of
        None \<Rightarrow> None
      | Some (f, r) \<Rightarrow> map_option ((#) f) (read_fields shs r))"

definition row_at :: "string \<Rightarrow> string list option" where
  "row_at t =
     (case pid_token t of
        None \<Rightarrow> None
      | Some ds \<Rightarrow> read_fields row_shapes (drop (length ds + 3) t))"

fun last_row :: "string \<Rightarrow> string list option" where
  "last_row [] = None"
| "last_row (x # xs) =
     (if x = newline then None
      else (case last_row xs of Some g \<Rightarrow> Some g | None \<Rightarrow> row_at (x # xs)))"

text \<open>
  The pieces of the run in closed form: the rounded mean of a non-empty list, the rows parsed
  from the streams in the order the loops visit them, the lists a table holds for a signature,
  the table of averages, and the row printed for a key.
\<close>

definition mean :: "'f float_ops \<Rightarrow> 'f list \<Rightarrow> 'f" where
  "mean ops xs = round1 ops (fdiv ops (fsum ops xs) (length xs))"

definition rows_of :: "'f float_ops \<Rightarrow> (string \<times> string list) list \<Rightarrow> (string \<times> 'f stats) list" where
  "rows_of ops streams = List.map_filter (stat_row ops) (concat (map snd streams))"

definition collect :: "'a stats list \<Rightarrow> 'a list stats" where
  "collect vs = Stats (map rank vs) (map checks vs) (map matches vs) (map alerts vs) (map ms vs)
                      (map ac vs) (map am vs) (map an vs) (map dis vs)"

definition rows_for :: "string \<Rightarrow> (string \<times> 'a stats) list \<Rightarrow> 'a stats list" where
  "rows_for sig rows = map snd (filter (\<lambda>r. fst r = sig) rows)"

definition avg_table :: "'f float_ops \<Rightarrow> string list \<Rightarrow> (string \<times> 'f stats) list" where
  "avg_table ops ls =
     map (\<lambda>(k, sT). (k, map_stats (mean ops) sT)) (statsTable ops (logStreams (demux_lines ls)))"

definition is_sig :: "string \<Rightarrow> bool" where
  "is_sig k \<longleftrightarrow>
     (\<exists>gid sid rev'. is_int gid \<and> is_int sid \<and> is_int rev' \<and> k = gid @ '':'' @ sid @ '':'' @ rev')"

definition print_row :: "'f float_ops \<Rightarrow> (string \<times> 'f stats) list \<Rightarrow> string \<Rightarrow> string" where
  "print_row ops avg k =
     (case split_on CHR '':'' k of
        [gid, sid, rev'] \<Rightarrow>
          (case map_of avg k of None \<Rightarrow> [] | Some vals \<Rightarrow> data_row ops gid sid rev' vals)
      | _ \<Rightarrow> [])"

text \<open>
  The float operations of CPython 3.7 to 3.11 on the values this program meets (no NaN, nothing
  negative): a double is the rational it denotes, and the rational \<open>2 ^ 1024\<close>, above every
  finite double, stands for \<^verbatim>\<open>inf\<close>. \<open>rnd\<close> rounds a non-negative rational to the nearest
  double, ties to even, with gradual underflow and overflow to \<^verbatim>\<open>inf\<close>. \<^verbatim>\<open>float(s)\<close> is
  correctly rounded, \<^verbatim>\<open>sum\<close> adds from the left starting at 0, \<^verbatim>\<open>round(x, 1)\<close> rounds the
  exact value of the double to one decimal, ties to even, and returns the nearest double, and
  the text of a float is its shortest decimal that reads back as the same double.
\<close>

definition py_inf :: rat where
  "py_inf = 2 ^ 1024"

definition p2 :: "int \<Rightarrow> rat" where
  "p2 e = (if 0 \<le> e then 2 ^ nat e else 1 / 2 ^ nat (- e))"

definition p10 :: "int \<Rightarrow> rat" where
  "p10 e = (if 0 \<le> e then 10 ^ nat e else 1 / 10 ^ nat (- e))"

definition rhe :: "rat \<Rightarrow> int" where
  "rhe y =
     (let f = \<lfloor>y\<rfloor>; d = y - of_int f
      in if d < 1 / 2 then f
         else if 1 / 2 < d then f + 1
         else if even f then f else f + 1)"

fun bitlen :: "nat \<Rightarrow> nat" where
  "bitlen n = (if n = 0 then 0 else Suc (bitlen (n div 2)))"

declare bitlen.simps [simp del]

text \<open>\<open>fl2 q\<close> is the integer \<open>k\<close> with \<open>2 ^ k \<le> q < 2 ^ (k + 1)\<close>, for positive \<open>q\<close>;
  \<open>fl10\<close> is the same for powers of ten.\<close>

definition fl2 :: "rat \<Rightarrow> int" where
  "fl2 q =
     (if 1 \<le> q then int (bitlen (nat \<lfloor>q\<rfloor>)) - 1
      else (let k = bitlen (nat \<lfloor>1 / q\<rfloor>)
            in if q * 2 ^ (k - 1) = 1 then 1 - int k else - int k))"

definition fl10 :: "rat \<Rightarrow> int" where
  "fl10 q =
     (if 1 \<le> q then int (length (str_nat (nat \<lfloor>q\<rfloor>))) - 1
      else (let k = length (str_nat (nat \<lfloor>1 / q\<rfloor>))
            in if q * 10 ^ (k - 1) = 1 then 1 - int k else - int k))"

definition rnd :: "rat \<Rightarrow> rat" where
  "rnd q =
     (if q \<le> 0 then 0
      else (let e = max (fl2 q - 52) (- 1074);
                r = of_int (rhe (q / p2 e)) * p2 e
            in if py_inf \<le> r then py_inf else r))"

definition py_float :: "string \<Rightarrow> rat" where
  "py_float s = rnd (exact_float s)"

definition py_sum :: "rat list \<Rightarrow> rat" where
  "py_sum xs = foldl (\<lambda>a x. rnd (a + x)) 0 xs"

definition py_div :: "rat \<Rightarrow> nat \<Rightarrow> rat" where
  "py_div x n = (if x = py_inf then py_inf else rnd (x / of_nat n))"

definition py_round1 :: "rat \<Rightarrow> rat" where
  "py_round1 x = (if x = py_inf then py_inf else rnd (of_int (rhe (x * 10)) / 10))"

text \<open>
  The shortest decimal: with \<open>n\<close> significant digits the two candidates are the neighbours of
  \<open>x\<close> on the grid of such decimals; the first \<open>n\<close> for which one of them reads back as \<open>x\<close>
  gives the digits (the nearer candidate when both do).
\<close>

definition shortest_at :: "rat \<Rightarrow> nat \<Rightarrow> rat option" where
  "shortest_at x n =
     (let u = p10 (fl10 x - int n + 1);
          lo = of_int \<lfloor>x / u\<rfloor> * u;
          hi = lo + u
      in if rnd lo = x \<and> rnd hi = x then (if x - lo \<le> hi - x then Some lo else Some hi)
         else if rnd lo = x then Some lo
         else if rnd hi = x then Some hi
         else None)"

fun shortest_from :: "rat \<Rightarrow> nat \<Rightarrow> nat \<Rightarrow> rat" where
  "shortest_from x n 0 = x"
| "shortest_from x n (Suc fuel) =
     (case shortest_at x n of Some c \<Rightarrow> c | None \<Rightarrow> shortest_from x (Suc n) fuel)"

definition shortest :: "rat \<Rightarrow> rat" where
  "shortest x = shortest_from x 1 17"

text \<open>The digits of a positive decimal without trailing zeros, and the position of its point
  (the value is \<open>0.digits\<close> times ten to that position).\<close>

fun strip_zeros :: "nat \<Rightarrow> nat \<Rightarrow> nat" where
  "strip_zeros 0 m = m"
| "strip_zeros (Suc fuel) m = (if m \<noteq> 0 \<and> m mod 10 = 0 then strip_zeros fuel (m div 10) else m)"

definition dec_digits :: "rat \<Rightarrow> string" where
  "dec_digits c =
     (let m = nat \<lfloor>c / p10 (fl10 c - 17)\<rfloor> in str_nat (strip_zeros 18 m))"

definition py_str :: "rat \<Rightarrow> string" where
  "py_str x =
     (if x = py_inf then ''inf''
      else if x = 0 then ''0.0''
      else (let c = shortest x;
                ds = dec_digits c;
                decpt = fl10 c + 1;
                n = int (length ds)
            in if decpt \<le> - 4 \<or> 16 < decpt
               then [hd ds] @ (if tl ds = [] then [] else CHR ''.'' # tl ds) @ ''e''
                    @ (if decpt - 1 < 0 then ''-'' else ''+'')
                    @ (if nat \<bar>decpt - 1\<bar> < 10 then ''0'' else [])
                    @ str_nat (nat \<bar>decpt - 1\<bar>)
               else if decpt \<le> 0 then ''0.'' @ replicate (nat (- decpt)) CHR ''0'' @ ds
               else if n \<le> decpt then ds @ replicate (nat (decpt - n)) CHR ''0'' @ ''.0''
               else take (nat decpt) ds @ ''.'' @ drop (nat decpt) ds))"

definition py_ops :: "rat float_ops" where
  "py_ops = \<lparr>float_of = py_float, fsum = py_sum, fdiv = py_div, round1 = py_round1,
             fstr = py_str\<rparr>"

section \<open>Verification\<close>

subsection \<open>The matcher on the pid pattern\<close>

lemma pushs_simps [simp]:
  "pushs [] cur = cur" "pushs w None = None" "pushs w (Some g) = Some (g @ w)"
  "pushs (x # w) cur = pushs w (push x cur)"
  by (cases cur; simp add: pushs_def)+

lemma rmatch_star_end: "rmatch [Star c] s caps cur = Some caps"
  by (induction s arbitrary: cur) auto

lemma rmatch_star_skip:
  assumes "\<And>x xs caps cur. cls_match c x \<Longrightarrow> rmatch r (x # xs) caps cur = None"
  shows "rmatch (Star c # r) s caps cur =
         rmatch r (dropWhile (cls_match c) s) caps (pushs (takeWhile (cls_match c) s) cur)"
proof (induction s arbitrary: cur)
  case Nil
  show ?case by simp
next
  case (Cons x xs)
  show ?case
  proof (cases "cls_match c x")
    case True
    show ?thesis
    proof (cases "rmatch (Star c # r) xs caps (push x cur)")
      case None
      with True Cons[of "push x cur"] assms[OF True] show ?thesis by simp
    next
      case (Some g)
      with Cons[of "push x cur"] have "rmatch r (dropWhile (cls_match c) xs) caps
          (pushs (takeWhile (cls_match c) xs) (push x cur)) = Some g" by simp
      with True Some show ?thesis by simp
    qed
  next
    case False
    then show ?thesis by simp
  qed
qed

lemma rmatch_plus_skip:
  assumes "\<And>x xs caps cur. cls_match c x \<Longrightarrow> rmatch r (x # xs) caps cur = None"
  shows "rmatch (Plus c # r) s caps cur =
         (if takeWhile (cls_match c) s = [] then None
          else rmatch r (dropWhile (cls_match c) s) caps (pushs (takeWhile (cls_match c) s) cur))"
  by (cases s) (simp_all add: rmatch_star_skip[OF assms])

lemma not_digit_chars [simp]:
  "\<not> is_digit CHR '']''" "\<not> is_digit CHR ''[''" "\<not> is_digit CHR '':''" "\<not> is_digit CHR '' ''"
  "\<not> is_digit CHR ''.''" "\<not> is_digit newline"
  by (simp_all add: is_digit_def newline_def)

lemma cls_match_Digit [simp]: "cls_match Digit = is_digit"
  by (rule ext) simp

lemma newline_not_bracket [simp]: "newline \<noteq> CHR ''[''" "CHR ''['' \<noteq> newline"
  by (simp_all add: newline_def)

lemma rmatch_close_tail:
  "rmatch [One (Lit CHR '']''), One (Lit CHR '':''), Star AnyChar] dr caps None
   = (if take 2 dr = '']:'' then Some caps else None)"
proof (cases dr)
  case Nil
  then show ?thesis by simp
next
  case (Cons y ys)
  then show ?thesis by (cases ys) (simp_all add: rmatch_star_end numeral_2_eq_2)
qed

lemma rmatch_pid_token:
  "rmatch [One (Lit CHR ''[''), GOpen, Plus Digit, GClose,
           One (Lit CHR '']''), One (Lit CHR '':''), Star AnyChar] s [] None
   = map_option (\<lambda>ds. [ds]) (pid_token s)"
proof (cases s)
  case Nil
  then show ?thesis by (simp add: pid_token_def)
next
  case (Cons x r)
  have fail: "\<And>r' x xs caps cur. cls_match Digit x \<Longrightarrow>
      rmatch (GClose # One (Lit CHR '']'') # r') (x # xs) caps cur = None"
    by auto
  have skip: "\<And>r' caps cur. rmatch (Plus Digit # GClose # One (Lit CHR '']'') # r') r caps cur =
        (if takeWhile is_digit r = [] then None
          else rmatch (GClose # One (Lit CHR '']'') # r') (dropWhile is_digit r) caps (pushs (takeWhile is_digit r) cur))"
    using rmatch_plus_skip[where c=Digit, OF fail] by simp
  show ?thesis using Cons
    by (simp add: pid_token_def skip rmatch_close_tail)
qed

lemma re_match_scanPid:
  "re_match scanPid s = (case pid_tokens s of [] \<Rightarrow> None | ts \<Rightarrow> Some [last ts])"
proof -
  let ?R = "[One (Lit CHR ''[''), GOpen, Plus Digit, GClose,
           One (Lit CHR '']''), One (Lit CHR '':''), Star AnyChar]"
  have "rmatch (Star AnyChar # ?R) s [] None = (case pid_tokens s of [] \<Rightarrow> None | ts \<Rightarrow> Some [last ts])"
  proof (induction s)
    case Nil
    then show ?case by simp
  next
    case (Cons x xs)
    have tok: "rmatch ?R (x # xs) [] None = map_option (\<lambda>ds. [ds]) (pid_token (x # xs))"
      by (rule rmatch_pid_token)
    show ?case
    proof (cases "x = newline")
      case True
      then show ?thesis using tok by (simp add: pid_token_def)
    next
      case False
      then show ?thesis using Cons tok
        by (cases "pid_tokens xs"; cases "pid_token (x # xs)") simp_all
    qed
  qed
  then show ?thesis by (simp add: re_match_def scanPid_def)
qed

lemma pid_token_at:
  assumes "ds \<noteq> []" "list_all is_digit ds"
  shows "pid_token (CHR ''['' # ds @ CHR '']'' # CHR '':'' # b) = Some ds"
proof -
  have "takeWhile is_digit (ds @ CHR '']'' # CHR '':'' # b) = ds"
    using assms(2) by (induction ds) auto
  moreover have "dropWhile is_digit (ds @ CHR '']'' # CHR '':'' # b) = CHR '']'' # CHR '':'' # b"
    using assms(2) by (induction ds) auto
  ultimately show ?thesis using assms(1) by (simp add: pid_token_def)
qed

lemma pid_tokens_after:
  assumes "list_all is_digit ds" "pid_tokens b = []"
  shows "pid_tokens (ds @ CHR '']'' # CHR '':'' # b) = []"
  using assms
proof (induction ds)
  case Nil
  then show ?case by (simp add: pid_token_def)
next
  case (Cons d ds)
  then show ?case by (auto simp add: pid_token_def)
qed

lemma pid_tokens_last:
  assumes "newline \<notin> set a" "ds \<noteq> []" "list_all is_digit ds" "pid_tokens b = []"
  shows "\<exists>ts. pid_tokens (a @ CHR ''['' # ds @ CHR '']'' # CHR '':'' # b) = ts @ [ds]"
  using assms(1)
proof (induction a)
  case Nil
  have "CHR ''['' \<noteq> newline" by (simp add: newline_def)
  then show ?case using pid_token_at[OF assms(2,3)] pid_tokens_after[OF assms(3,4)] by simp
next
  case (Cons x a)
  then obtain ts where "pid_tokens (a @ CHR ''['' # ds @ CHR '']'' # CHR '':'' # b) = ts @ [ds]" by auto
  then show ?case using Cons.prems by auto
qed

text \<open>
  C10: when a line holds several tokens \<^verbatim>\<open>[<digits>]:\<close>, the pid of the line is the digits of
  the rightmost one: whatever precedes the token on the line (earlier tokens included), if no
  token starts after it, \<open>scanPid\<close> captures the digits of that token.
\<close>

theorem scanPid_rightmost_token:
  assumes "newline \<notin> set a" "ds \<noteq> []" "list_all is_digit ds" "pid_tokens b = []"
  shows "re_match scanPid (a @ ''['' @ ds @ '']:'' @ b) = Some [ds]"
proof -
  obtain ts where "pid_tokens (a @ CHR ''['' # ds @ CHR '']'' # CHR '':'' # b) = ts @ [ds]"
    using pid_tokens_last[OF assms] by blast
  then show ?thesis by (cases ts) (simp_all add: re_match_scanPid)
qed

theorem scanPid_rightmost_token_witness:
  "re_match scanPid (''snort[1]: relay '' @ ''['' @ ''22'' @ '']:'' @ '' done'') = Some [''22'']"
  using scanPid_rightmost_token[of "''snort[1]: relay ''" "''22''" "'' done''"]
  by (simp add: newline_def is_digit_def pid_token_def)


text \<open>
  C2: with a file name whose \<^verbatim>\<open>open\<close> fails, the message goes to the error stream and the
  run then ends with \<^verbatim>\<open>UnboundLocalError\<close> before anything is printed on standard output.
\<close>

theorem parseMessages_open_failure:
  "parseMessages ops \<lparr>files = (\<lambda>fn. None), stdin = []\<rparr> (Some ''missing.log'')
   = \<lparr>stderr = [''Error opening missing.log''], stdout = [], raised = Some UnboundLocalError\<rparr>"
  by (simp add: parseMessages_def)

subsection \<open>The streams kept by the demultiplexer\<close>

lemma map_of_append_to:
  "map_of (append_to k x d) =
   (map_of d)(k \<mapsto> (case map_of d k of None \<Rightarrow> [] | Some vs \<Rightarrow> vs) @ [x])"
  by (simp add: append_to_def update_conv' split: option.splits)

lemma keys_append_to:
  "fst ` set (append_to k x d) = insert k (fst ` set d)"
  by (simp add: append_to_def dom_update split: option.splits)

lemma distinct_append_to:
  "distinct (map fst d) \<Longrightarrow> distinct (map fst (append_to k x d))"
  by (simp add: append_to_def distinct_update split: option.splits)

lemma demux_line_alt:
  "demux_line line st =
     (case pid_of line of
        None \<Rightarrow> st
      | Some pid \<Rightarrow>
          (let lsl = (if has_header line then logStreamList st @ [pid] else logStreamList st)
           in if pid \<in> set lsl
              then \<lparr>logStreamList = lsl, logStreams = append_to pid (rstrip line) (logStreams st)\<rparr>
              else \<lparr>logStreamList = lsl, logStreams = logStreams st\<rparr>))"
  by (simp add: demux_line_def pid_of_def split: option.splits list.splits)

lemma demux_lines_snoc: "demux_lines (ls @ [l]) = demux_line l (demux_lines ls)"
  by (simp add: demux_lines_def)

lemma stream_of_snoc:
  "stream_of p (ls @ [l]) = (if pid_of l = Some p then stream_of p ls @ [l] else stream_of p ls)"
  by (simp add: stream_of_def)

lemma eligible_snoc:
  "eligible (ls @ [l]) p \<longleftrightarrow> eligible ls p \<or> (pid_of l = Some p \<and> has_header l)"
  by (auto simp add: eligible_def stream_of_snoc list_ex_iff)

lemma from_header_snoc:
  "from_header p (ls @ [l]) =
     (if pid_of l = Some p
      then (if eligible ls p then from_header p ls @ [rstrip l]
            else if has_header l then [rstrip l] else [])
      else from_header p ls)"
  by (auto simp add: from_header_def eligible_def stream_of_snoc list_ex_iff dropWhile_append)

lemma from_header_ineligible: "\<not> eligible ls p \<Longrightarrow> from_header p ls = []"
  by (auto simp add: from_header_def eligible_def list_ex_iff)

lemma demux_invariant:
  "set (logStreamList (demux_lines ls)) = {p. eligible ls p} \<and>
   (\<forall>p. map_of (logStreams (demux_lines ls)) p =
        (if eligible ls p then Some (from_header p ls) else None)) \<and>
   distinct (map fst (logStreams (demux_lines ls)))"
proof (induction ls rule: rev_induct)
  case Nil
  show ?case by (simp add: demux_lines_def demux_init_def eligible_def stream_of_def)
next
  case (snoc l ls)
  let ?st = "demux_lines ls"
  from snoc have lsl: "set (logStreamList ?st) = {p. eligible ls p}"
    and look: "\<And>p. map_of (logStreams ?st) p = (if eligible ls p then Some (from_header p ls) else None)"
    and dist: "distinct (map fst (logStreams ?st))" by auto
  show ?case
  proof (cases "pid_of l")
    case None
    then show ?thesis using snoc
      by (simp add: demux_lines_snoc demux_line_alt eligible_snoc from_header_snoc)
  next
    case (Some q)
    show ?thesis
    proof (cases "has_header l \<or> eligible ls q")
      case True
      then have st': "demux_lines (ls @ [l]) =
        \<lparr>logStreamList = (if has_header l then logStreamList ?st @ [q] else logStreamList ?st),
         logStreams = append_to q (rstrip l) (logStreams ?st)\<rparr>"
        using Some lsl by (auto simp add: demux_lines_snoc demux_line_alt Let_def)
      have 1: "set (logStreamList (demux_lines (ls @ [l]))) = {p. eligible (ls @ [l]) p}"
        using True Some lsl by (auto simp add: st' eligible_snoc)
      have 2: "map_of (logStreams (demux_lines (ls @ [l]))) p =
        (if eligible (ls @ [l]) p then Some (from_header p (ls @ [l])) else None)" for p
        using True Some look[of p] look[of q]
        by (auto simp add: st' map_of_append_to eligible_snoc from_header_snoc from_header_ineligible)
      have 3: "distinct (map fst (logStreams (demux_lines (ls @ [l]))))"
        using dist by (simp add: st' distinct_append_to)
      from 1 2 3 show ?thesis by blast
    next
      case False
      then have st': "demux_lines (ls @ [l]) = ?st"
        using Some lsl by (auto simp add: demux_lines_snoc demux_line_alt Let_def)
      show ?thesis using False Some snoc
        by (auto simp add: st' eligible_snoc from_header_snoc)
    qed
  qed
qed

lemma ineligible_dropped:
  "\<not> eligible ls p \<Longrightarrow> demux_lines (filter (\<lambda>l. pid_of l \<noteq> Some p) ls) = demux_lines ls"
proof (induction ls rule: rev_induct)
  case Nil
  show ?case by simp
next
  case (snoc l ls)
  then have ne: "\<not> eligible ls p" and nl: "\<not> (pid_of l = Some p \<and> has_header l)"
    by (auto simp add: eligible_snoc)
  with snoc have IH: "demux_lines (filter (\<lambda>l. pid_of l \<noteq> Some p) ls) = demux_lines ls" by simp
  show ?case
  proof (cases "pid_of l = Some p")
    case True
    have "p \<notin> set (logStreamList (demux_lines ls))"
      using demux_invariant[of ls] ne by auto
    then have "demux_line l (demux_lines ls) = demux_lines ls"
      using True nl by (simp add: demux_line_alt)
    then show ?thesis using True IH by (simp add: demux_lines_snoc)
  next
    case False
    then show ?thesis using IH by (simp add: demux_lines_snoc)
  qed
qed


text \<open>
  C1 (as the code has it): for every input and every eligible pid, the lines kept for the pid are
  its lines from its first line that contains the header literal onward, in input order, each
  with trailing whitespace removed.
\<close>

theorem retained_from_first_header:
  "eligible ls p \<Longrightarrow>
   map_of (logStreams (demux_lines ls)) p =
   Some (map rstrip (dropWhile (\<lambda>l. \<not> has_header l) (stream_of p ls)))"
  using demux_invariant[of ls] by (simp add: from_header_def)

theorem retained_from_first_header_witness:
  "map_of (logStreams (demux_lines
     [''snort[7]: started'', ''snort[7]: Rule Profile Statistics (all rules)'',
      ''snort[7]: done  ''])) ''7'' =
   Some (map rstrip (dropWhile (\<lambda>l. \<not> has_header l) (stream_of ''7''
     [''snort[7]: started'', ''snort[7]: Rule Profile Statistics (all rules)'',
      ''snort[7]: done  ''])))"
proof -
  have e: "eligible [''snort[7]: started'', ''snort[7]: Rule Profile Statistics (all rules)'',
      ''snort[7]: done  ''] ''7''"
    by code_simp
  show ?thesis by (rule retained_from_first_header[OF e])
qed

text \<open>
  C1 as stated fails: a line of an eligible pid that comes before its header line is not kept.
\<close>

theorem lines_before_header_dropped:
  "eligible [''snort[7]: started'', ''snort[7]: Rule Profile Statistics (all rules)''] ''7'' \<and>
   stream_of ''7'' [''snort[7]: started'', ''snort[7]: Rule Profile Statistics (all rules)'']
     = [''snort[7]: started'', ''snort[7]: Rule Profile Statistics (all rules)''] \<and>
   map_of (logStreams (demux_lines
     [''snort[7]: started'', ''snort[7]: Rule Profile Statistics (all rules)''])) ''7''
     = Some [''snort[7]: Rule Profile Statistics (all rules)'']"
  by code_simp

text \<open>
  C7: a pid none of whose lines contains the header literal has no stream, and the run is the
  same as on the input without the lines of that pid: the same streams (so the same process
  count), the same table of rows and the same output.
\<close>

theorem ineligible_pid_contributes_nothing:
  assumes "\<not> eligible ls p"
  shows "map_of (logStreams (demux_lines ls)) p = None \<and>
         logStreams (demux_lines ls) = logStreams (demux_lines (filter (\<lambda>l. pid_of l \<noteq> Some p) ls)) \<and>
         statsTable ops (logStreams (demux_lines ls)) =
           statsTable ops (logStreams (demux_lines (filter (\<lambda>l. pid_of l \<noteq> Some p) ls))) \<and>
         run_lines ops ls = run_lines ops (filter (\<lambda>l. pid_of l \<noteq> Some p) ls)"
  using assms demux_invariant[of ls] ineligible_dropped[OF assms]
  by (simp add: run_lines_def)

theorem ineligible_pid_contributes_nothing_witness:
  "run_lines exact_ops
     [''snort[3]: Rule Profile Statistics (all rules)'',
      ''snort[4]: 1 100 1 2 10 5 1 50 5.0 10.0 5.25 0'',
      ''snort[3]: 1 200 1 1 20 15 3 150 7.5 10.0 6.5 0'']
   = run_lines exact_ops (filter (\<lambda>l. pid_of l \<noteq> Some ''4'')
     [''snort[3]: Rule Profile Statistics (all rules)'',
      ''snort[4]: 1 100 1 2 10 5 1 50 5.0 10.0 5.25 0'',
      ''snort[3]: 1 200 1 1 20 15 3 150 7.5 10.0 6.5 0''])
   \<and> stat_row exact_ops ''snort[4]: 1 100 1 2 10 5 1 50 5.0 10.0 5.25 0'' \<noteq> None"
proof -
  have e: "\<not> eligible
     [''snort[3]: Rule Profile Statistics (all rules)'',
      ''snort[4]: 1 100 1 2 10 5 1 50 5.0 10.0 5.25 0'',
      ''snort[3]: 1 200 1 1 20 15 3 150 7.5 10.0 6.5 0''] ''4''"
    by code_simp
  have r: "stat_row exact_ops ''snort[4]: 1 100 1 2 10 5 1 50 5.0 10.0 5.25 0'' \<noteq> None"
    by code_simp
  show ?thesis using ineligible_pid_contributes_nothing[OF e, of exact_ops] r by blast
qed

subsection \<open>The matcher on the row pattern\<close>

lemma cls_match_blank [simp]: "cls_match (Lit CHR '' '') = is_blank"
  by (rule ext) (simp add: is_blank_def)

lemma blank_not_digit [simp]: "is_blank x \<Longrightarrow> \<not> is_digit x" "is_digit x \<Longrightarrow> \<not> is_blank x"
  by (auto simp add: is_blank_def)

lemma rmatch_star_greedy:
  assumes "greedy_safe c r"
  shows "rmatch (Star c # r) s caps cur =
         rmatch r (dropWhile (cls_match c) s) caps (pushs (takeWhile (cls_match c) s) cur)"
proof (cases "\<forall>x xs caps cur. cls_match c x \<longrightarrow> rmatch r (x # xs) caps cur = None")
  case True
  then show ?thesis by (intro rmatch_star_skip) blast
next
  case False
  with assms have total: "\<And>s caps cur. rmatch r s caps cur \<noteq> None"
    by (auto simp add: greedy_safe_def)
  show ?thesis
  proof (induction s arbitrary: cur)
    case Nil
    show ?case by simp
  next
    case (Cons x xs)
    show ?case
    proof (cases "cls_match c x")
      case True
      obtain g where g: "rmatch r (dropWhile (cls_match c) xs) caps
          (pushs (takeWhile (cls_match c) xs) (push x cur)) = Some g"
        using total by (meson option.exhaust)
      with Cons[of "push x cur"] True show ?thesis by simp
    next
      case False
      then show ?thesis by simp
    qed
  qed
qed

lemma rmatch_plus_greedy:
  assumes "greedy_safe c r"
  shows "rmatch (Plus c # r) s caps cur =
         (if takeWhile (cls_match c) s = [] then None
          else rmatch r (dropWhile (cls_match c) s) caps (pushs (takeWhile (cls_match c) s) cur))"
  by (cases s) (simp_all add: rmatch_star_greedy[OF assms])

lemma greedy_safe_Nil: "greedy_safe c []"
  by (simp add: greedy_safe_def)

lemma greedy_safe_One: "(\<And>x. cls_match c x \<Longrightarrow> \<not> cls_match d x) \<Longrightarrow> greedy_safe c (One d # r)"
  by (simp add: greedy_safe_def)

lemma greedy_safe_Plus: "(\<And>x. cls_match c x \<Longrightarrow> \<not> cls_match d x) \<Longrightarrow> greedy_safe c (Plus d # r)"
  by (simp add: greedy_safe_def)

lemma greedy_safe_GClose: "greedy_safe c r \<Longrightarrow> greedy_safe c (GClose # r)"
  by (auto simp add: greedy_safe_def)

lemma greedy_safe_GOpen: "greedy_safe c r \<Longrightarrow> greedy_safe c (GOpen # r)"
  by (auto simp add: greedy_safe_def)

lemma greedy_safe_fields: "greedy_safe Digit (fields_items shs)"
  by (cases shs) (auto intro!: greedy_safe_Plus simp add: fields_items_def greedy_safe_Nil)

lemma rmatch_shape:
  assumes "greedy_safe Digit k"
  shows "rmatch (shape_items sh @ k) s caps None =
         (case read_shape sh s of None \<Rightarrow> None | Some (f, r) \<Rightarrow> rmatch k r (caps @ [f]) None)"
proof (cases sh)
  case IntF
  have "greedy_safe Digit (GClose # k)" using assms by (rule greedy_safe_GClose)
  from rmatch_plus_greedy[OF this] show ?thesis
    using IntF by (simp add: read_int_def)
next
  case DecF
  have 1: "greedy_safe Digit (GClose # k)" using assms by (rule greedy_safe_GClose)
  have 2: "greedy_safe Digit (One (Lit CHR ''.'') # Plus Digit # GClose # k)"
    by (rule greedy_safe_One) auto
  have dot: "rmatch (One (Lit CHR ''.'') # Plus Digit # GClose # k) r0 caps (Some a) =
      (case r0 of
         [] \<Rightarrow> None
       | x # r' \<Rightarrow>
           if x = CHR ''.''
           then (case read_int r' of
                   None \<Rightarrow> None
                 | Some (b, r'') \<Rightarrow> rmatch k r'' (caps @ [a @ ''.'' @ b]) None)
           else None)" for r0 a
    by (cases r0) (auto simp add: rmatch_plus_greedy[OF 1] read_int_def)
  show ?thesis
    using DecF
    by (auto simp add: read_dec_def read_int_def rmatch_plus_greedy[OF 2] dot
             simp del: dropWhile_eq_Nil_conv split: list.splits option.splits)
qed

lemma rmatch_fields:
  "rmatch (fields_items shs) s caps None = map_option (\<lambda>fs. caps @ fs) (read_fields shs s)"
proof (induction shs arbitrary: s caps)
  case Nil
  show ?case by (simp add: fields_items_def)
next
  case (Cons sh shs)
  have items: "fields_items (sh # shs) = sp # shape_items sh @ fields_items shs"
    by (simp add: fields_items_def)
  have "greedy_safe (Lit CHR '' '') (shape_items sh @ fields_items shs)"
    by (cases sh) (auto intro!: greedy_safe_GOpen greedy_safe_Plus)
  from rmatch_plus_greedy[OF this]
  have step: "rmatch (fields_items (sh # shs)) s caps None =
     (if takeWhile is_blank s = [] then None
      else rmatch (shape_items sh @ fields_items shs) (dropWhile is_blank s) caps None)"
    by (simp add: items)
  show ?case
    by (simp add: step rmatch_shape[OF greedy_safe_fields] Cons.IH read_field_def
             option.map_comp comp_def split: option.splits)
qed

lemma scanStatLine_items:
  "scanStatLine = Star AnyChar # One (Lit CHR ''['') # Plus Digit # One (Lit CHR '']'')
                  # One (Lit CHR '':'') # fields_items row_shapes"
  by (simp add: scanStatLine_def fields_items_def row_shapes_def)

lemma rmatch_row_at:
  "rmatch (One (Lit CHR ''['') # Plus Digit # One (Lit CHR '']'') # One (Lit CHR '':'')
           # fields_items row_shapes) t [] None = row_at t"
proof (cases t)
  case Nil
  then show ?thesis by (simp add: row_at_def pid_token_def)
next
  case (Cons x r)
  have 1: "greedy_safe Digit (One (Lit CHR '']'') # One (Lit CHR '':'') # fields_items row_shapes)"
    by (rule greedy_safe_One) auto
  have len: "length (takeWhile is_digit r) + length (dropWhile is_digit r) = length r"
    by (metis length_append takeWhile_dropWhile_id)
  show ?thesis
  proof (cases "dropWhile is_digit r")
    case Nil
    then show ?thesis using Cons
      by (simp add: row_at_def pid_token_def rmatch_plus_greedy[OF 1] del: dropWhile_eq_Nil_conv)
  next
    case c1: (Cons y ys)
    show ?thesis
    proof (cases ys)
      case Nil
      then show ?thesis using Cons c1
        by (simp add: row_at_def pid_token_def rmatch_plus_greedy[OF 1])
    next
      case c2: (Cons z zs)
      define tw where "tw = takeWhile is_digit r"
      have "r = tw @ y # z # zs"
        unfolding tw_def using c1 c2 by (metis takeWhile_dropWhile_id)
      then have "drop (length tw + 3) (h # r) = zs" for h
        by (simp add: numeral_3_eq_3)
      then have "drop (length (takeWhile is_digit r) + 3) (h # r) = zs" for h
        by (simp add: tw_def)
      then show ?thesis using Cons c1 c2
        by (simp add: row_at_def pid_token_def rmatch_plus_greedy[OF 1] rmatch_fields
            option.map_ident)
    qed
  qed
qed

lemma re_match_scanStatLine: "re_match scanStatLine s = last_row s"
proof -
  let ?R = "One (Lit CHR ''['') # Plus Digit # One (Lit CHR '']'') # One (Lit CHR '':'')
           # fields_items row_shapes"
  have "rmatch (Star AnyChar # ?R) s [] None = last_row s"
  proof (induction s)
    case Nil
    show ?case using rmatch_row_at[of "[]"] by (simp add: row_at_def pid_token_def)
  next
    case (Cons x xs)
    have nl: "row_at (newline # xs) = None"
      by (simp add: row_at_def pid_token_def)
    show ?case
    proof (cases "x = newline")
      case True
      then show ?thesis using nl rmatch_row_at[of "newline # xs"]
        by (simp del: rmatch.simps(3))
    next
      case False
      then show ?thesis using Cons rmatch_row_at[of "x # xs"]
        by (simp del: rmatch.simps(3) split: option.splits)
    qed
  qed
  then show ?thesis by (simp add: re_match_def scanStatLine_items)
qed

lemma read_int_SomeD: "read_int s = Some (f, r) \<Longrightarrow> s = f @ r \<and> is_int f"
  by (auto simp add: read_int_def is_int_def list_all_iff split: if_splits dest: set_takeWhileD)

lemma read_dec_SomeD: "read_dec s = Some (f, r) \<Longrightarrow> s = f @ r \<and> is_dec f"
  unfolding read_dec_def
  by (auto simp add: is_dec_def split: option.splits list.splits if_splits dest!: read_int_SomeD)
     blast

lemma read_shape_SomeD: "read_shape sh s = Some (f, r) \<Longrightarrow> s = f @ r \<and> has_shape sh f"
  by (cases sh) (auto dest: read_int_SomeD read_dec_SomeD)

lemma read_field_SomeD:
  "read_field sh s = Some (f, r) \<Longrightarrow> \<exists>w. s = w @ f @ r \<and> is_spaces w \<and> has_shape sh f"
proof -
  assume a: "read_field sh s = Some (f, r)"
  then have w: "takeWhile is_blank s \<noteq> []" and rs: "read_shape sh (dropWhile is_blank s) = Some (f, r)"
    by (auto simp add: read_field_def split: if_splits)
  from read_shape_SomeD[OF rs] have "dropWhile is_blank s = f @ r" and sh: "has_shape sh f" by auto
  then have "s = takeWhile is_blank s @ f @ r" by (metis takeWhile_dropWhile_id)
  moreover have "is_spaces (takeWhile is_blank s)"
    using w by (auto simp add: is_spaces_def list_all_iff dest: set_takeWhileD)
  ultimately show ?thesis using sh by blast
qed

lemma read_fields_SomeD:
  "read_fields shs s = Some fs \<Longrightarrow>
   \<exists>sps rest. s = concat (map2 (@) sps fs) @ rest \<and> length sps = length fs \<and>
              list_all is_spaces sps \<and> list_all2 has_shape shs fs"
proof (induction shs arbitrary: s fs)
  case Nil
  then show ?case by simp
next
  case (Cons sh shs)
  from Cons.prems obtain f r fs' where rf: "read_field sh s = Some (f, r)"
    and rfs: "read_fields shs r = Some fs'" and fs: "fs = f # fs'"
    by (auto split: option.splits)
  from read_field_SomeD[OF rf] obtain w where w: "s = w @ f @ r" "is_spaces w" "has_shape sh f"
    by blast
  from Cons.IH[OF rfs] obtain sps rest where t: "r = concat (map2 (@) sps fs') @ rest"
    "length sps = length fs'" "list_all is_spaces sps" "list_all2 has_shape shs fs'"
    by blast
  have "s = concat (map2 (@) (w # sps) fs) @ rest" using w t fs by simp
  moreover have "length (w # sps) = length fs" using t fs by simp
  moreover have "list_all is_spaces (w # sps)" using w t by simp
  moreover have "list_all2 has_shape (sh # shs) fs" using w t fs by simp
  ultimately show ?case by blast
qed

lemma takeWhile_all: "list_all P xs \<Longrightarrow> takeWhile P (xs @ ys) = xs @ takeWhile P ys"
  by (induction xs) auto

lemma dropWhile_all: "list_all P xs \<Longrightarrow> dropWhile P (xs @ ys) = dropWhile P ys"
  by (induction xs) auto

lemma read_int_append:
  "is_int f \<Longrightarrow> read_int (f @ t) = Some (f @ takeWhile is_digit t, dropWhile is_digit t)"
  by (simp add: read_int_def is_int_def takeWhile_all dropWhile_all)

lemma read_int_dot:
  "is_int a \<Longrightarrow> read_int (a @ CHR ''.'' # t) = Some (a, CHR ''.'' # t)"
  using read_int_append[of a "CHR ''.'' # t"] by simp

lemma read_shape_append:
  "has_shape sh f \<Longrightarrow> read_shape sh (f @ t) = Some (f @ takeWhile is_digit t, dropWhile is_digit t)"
proof (cases sh)
  case IntF
  assume "has_shape sh f"
  then show ?thesis using IntF by (simp add: read_int_append)
next
  case DecF
  assume "has_shape sh f"
  then obtain a b where f: "f = a @ ''.'' @ b" "is_int a" "is_int b"
    using DecF by (auto simp add: is_dec_def)
  then show ?thesis using DecF read_int_append[of b t]
    by (simp add: read_dec_def read_int_dot)
qed

lemma has_shape_digit: "has_shape sh f \<Longrightarrow> \<exists>d f'. f = d # f' \<and> is_digit d"
  by (cases sh; cases f) (auto simp add: is_int_def is_dec_def Cons_eq_append_conv)

lemma read_field_append:
  assumes "is_spaces w" "has_shape sh f"
  shows "read_field sh (w @ f @ t) = Some (f @ takeWhile is_digit t, dropWhile is_digit t)"
proof -
  obtain d f' where f: "f = d # f'" "is_digit d" using has_shape_digit[OF assms(2)] by blast
  have "takeWhile is_blank (w @ f @ t) = w" "dropWhile is_blank (w @ f @ t) = f @ t"
    using assms(1) f by (simp_all add: is_spaces_def takeWhile_all dropWhile_all)
  then show ?thesis using assms by (simp add: read_field_def is_spaces_def read_shape_append)
qed

lemma read_fields_complete:
  "list_all2 has_shape shs fs \<Longrightarrow> length sps = length fs \<Longrightarrow> list_all is_spaces sps \<Longrightarrow>
   read_fields shs (concat (map2 (@) sps fs) @ rest) \<noteq> None"
proof (induction shs arbitrary: fs sps)
  case Nil
  then show ?case by simp
next
  case (Cons sh shs)
  then obtain f fs' w sps' where fs: "fs = f # fs'" and sps: "sps = w # sps'"
    and f: "has_shape sh f" and w: "is_spaces w" and rest: "list_all2 has_shape shs fs'"
    "length sps' = length fs'" "list_all is_spaces sps'"
    by (cases fs; cases sps) auto
  let ?t = "concat (map2 (@) sps' fs') @ rest"
  have rf: "read_field sh (w @ f @ ?t) = Some (f @ takeWhile is_digit ?t, dropWhile is_digit ?t)"
    by (rule read_field_append[OF w f])
  show ?case
  proof (cases shs)
    case Nil
    then show ?thesis using rf fs sps by simp
  next
    case c: (Cons sh' shs')
    then obtain w' sps'' f'' fs'' where "sps' = w' # sps''" "fs' = f'' # fs''" "is_spaces w'"
      using rest by (cases sps'; cases fs') auto
    then have "takeWhile is_digit ?t = []" "dropWhile is_digit ?t = ?t"
      by (cases w'; auto simp add: is_spaces_def)+
    then show ?thesis using rf fs sps Cons.IH[OF rest] by simp
  qed
qed

lemma last_row_SomeD:
  "last_row s = Some g \<Longrightarrow> \<exists>pre t. s = pre @ t \<and> newline \<notin> set pre \<and> row_at t = Some g"
proof (induction s)
  case Nil
  then show ?case by simp
next
  case (Cons x xs)
  then have nl: "x \<noteq> newline" by (auto split: if_splits)
  show ?case
  proof (cases "last_row xs")
    case None
    then have "row_at (x # xs) = Some g" using Cons.prems nl by simp
    then have "x # xs = [] @ (x # xs) \<and> newline \<notin> set [] \<and> row_at (x # xs) = Some g" by simp
    then show ?thesis by blast
  next
    case (Some g')
    then have "last_row xs = Some g" using Cons.prems nl by simp
    from Cons.IH[OF this] obtain pre t where "xs = pre @ t" "newline \<notin> set pre" "row_at t = Some g"
      by blast
    then have "x # xs = (x # pre) @ t \<and> newline \<notin> set (x # pre) \<and> row_at t = Some g"
      using nl by auto
    then show ?thesis by blast
  qed
qed

lemma last_row_complete:
  assumes "newline \<notin> set pre" "row_at t \<noteq> None"
  shows "last_row (pre @ t) \<noteq> None"
  using assms(1)
proof (induction pre)
  case Nil
  from assms(2) obtain x xs where t: "t = x # xs" and "x = CHR ''[''"
    by (cases t) (auto simp add: row_at_def pid_token_def split: if_splits)
  then have "x \<noteq> newline" by simp
  then show ?case using assms(2) t by (auto split: option.splits)
next
  case (Cons a pre)
  then show ?case by (auto split: option.splits)
qed

lemma row_at_SomeD:
  assumes "row_at t = Some g"
  shows "\<exists>ds body. t = ''['' @ ds @ '']:'' @ body \<and> is_int ds \<and> read_fields row_shapes body = Some g"
proof -
  from assms obtain r where t: "t = CHR ''['' # r" and ne: "takeWhile is_digit r \<noteq> []"
    and tk: "take 2 (dropWhile is_digit r) = '']:''"
    and rf: "read_fields row_shapes (drop (length (takeWhile is_digit r) + 3) t) = Some g"
    by (cases t) (auto simp add: row_at_def pid_token_def split: if_splits)
  define ds where "ds = takeWhile is_digit r"
  define body where "body = drop 2 (dropWhile is_digit r)"
  have "dropWhile is_digit r = '']:'' @ body"
    unfolding body_def using tk by (metis append_take_drop_id)
  then have r: "r = ds @ '']:'' @ body"
    unfolding ds_def by (metis takeWhile_dropWhile_id)
  then have "drop (length ds + 3) t = body" using t by (simp add: numeral_3_eq_3)
  with rf have 1: "read_fields row_shapes body = Some g" by (simp add: ds_def)
  have 2: "is_int ds"
    using ne by (auto simp add: ds_def is_int_def list_all_iff dest: set_takeWhileD)
  have 3: "t = ''['' @ ds @ '']:'' @ body" using t r by simp
  from 1 2 3 show ?thesis by blast
qed

lemma row_at_complete:
  assumes "is_int ds"
  shows "row_at (''['' @ ds @ '']:'' @ body) = read_fields row_shapes body"
proof -
  have "pid_token (CHR ''['' # ds @ CHR '']'' # CHR '':'' # body) = Some ds"
    using assms by (intro pid_token_at) (simp_all add: is_int_def)
  then show ?thesis by (simp add: row_at_def numeral_3_eq_3)
qed

lemma re_match_scanStatLine_SomeD:
  "re_match scanStatLine line = Some g \<Longrightarrow> row_form line g"
proof -
  assume "re_match scanStatLine line = Some g"
  then have "last_row line = Some g" by (simp add: re_match_scanStatLine)
  from last_row_SomeD[OF this] obtain pre t where 1: "line = pre @ t" "newline \<notin> set pre"
    "row_at t = Some g" by blast
  from row_at_SomeD[OF 1(3)] obtain ds body where 2: "t = ''['' @ ds @ '']:'' @ body" "is_int ds"
    "read_fields row_shapes body = Some g" by blast
  from read_fields_SomeD[OF 2(3)] obtain sps rest where 3: "body = concat (map2 (@) sps g) @ rest"
    "length sps = length g" "list_all is_spaces sps" "list_all2 has_shape row_shapes g" by blast
  show ?thesis unfolding row_form_def using 1 2 3 by blast
qed

lemma re_match_scanStatLine_complete:
  "row_form line fs \<Longrightarrow> re_match scanStatLine line \<noteq> None"
proof -
  assume "row_form line fs"
  then obtain pre ds sps rest where
    l: "line = pre @ ''['' @ ds @ '']:'' @ concat (map2 (@) sps fs) @ rest"
    and p: "newline \<notin> set pre" "is_int ds" "length sps = length fs" "list_all is_spaces sps"
       "list_all2 has_shape row_shapes fs"
    unfolding row_form_def by blast
  have "read_fields row_shapes (concat (map2 (@) sps fs) @ rest) \<noteq> None"
    using p by (intro read_fields_complete)
  then have "row_at (''['' @ ds @ '']:'' @ concat (map2 (@) sps fs) @ rest) \<noteq> None"
    using row_at_complete[OF p(2)] by simp
  from last_row_complete[OF p(1) this] show ?thesis
    using l by (simp add: re_match_scanStatLine)
qed

lemma twelve_fields:
  assumes "list_all2 has_shape row_shapes fs"
  shows "\<exists>f1 f2 f3 f4 f5 f6 f7 f8 f9 f10 f11 f12.
           fs = [f1, f2, f3, f4, f5, f6, f7, f8, f9, f10, f11, f12] \<and>
           is_int f1 \<and> is_int f2 \<and> is_int f3 \<and> is_int f4 \<and> is_int f5 \<and> is_int f6 \<and>
           is_int f7 \<and> is_int f8 \<and> is_dec f9 \<and> is_dec f10 \<and> is_dec f11 \<and> is_int f12"
  using assms by (auto simp add: row_shapes_def list_all2_Cons1)

lemma row_values_row_form: "row_form line fs \<Longrightarrow> row_values ops fs \<noteq> None"
proof -
  assume "row_form line fs"
  then have "list_all2 has_shape row_shapes fs" unfolding row_form_def by blast
  from twelve_fields[OF this] show ?thesis by (auto simp add: row_values_def)
qed

text \<open>
  C3 (as the code has it): a line is parsed as a Stat Row if and only if it holds a pid token
  followed by twelve fields of the fixed shapes (eight integers, three decimals, one integer),
  each after one or more spaces, with anything after the twelfth field; the row parsed is
  then made of twelve such fields of the line, in the order rank, sid, gid, rev, checks,
  matches, alerts, microsecs, avg/check, avg/match, avg/nonmatch, dis. A line without this
  form gives no row.
\<close>

theorem stat_row_iff_prefix_form:
  "(stat_row ops line \<noteq> None \<longleftrightarrow> (\<exists>fs. row_form line fs)) \<and>
   (\<forall>r. stat_row ops line = Some r \<longrightarrow> (\<exists>fs. row_form line fs \<and> row_values ops fs = Some r))"
proof -
  have 1: "\<exists>fs. row_form line fs \<and> row_values ops fs = Some r" if "stat_row ops line = Some r" for r
  proof -
    from that obtain g where g: "re_match scanStatLine line = Some g" "row_values ops g = Some r"
      by (auto simp add: stat_row_def split: option.splits)
    with re_match_scanStatLine_SomeD[OF g(1)] show ?thesis by blast
  qed
  have 2: "stat_row ops line \<noteq> None" if "row_form line fs" for fs
  proof -
    from re_match_scanStatLine_complete[OF that] obtain g where g: "re_match scanStatLine line = Some g"
      by auto
    from re_match_scanStatLine_SomeD[OF g] have "row_values ops g \<noteq> None"
      by (rule row_values_row_form)
    then show ?thesis using g by (simp add: stat_row_def)
  qed
  from 1 2 show ?thesis by (metis option.exhaust)
qed


theorem stat_row_iff_prefix_form_witness:
  "\<exists>fs. row_form ''snort[5]:   1  100 1 2 10 5 1 50 5.0 10.0 5.25 0'' fs \<and>
         row_values exact_ops fs = Some (''1:100:2'', Stats 1 10 5 1 50 5 10 (21 / 4) 0)"
proof -
  have "stat_row exact_ops ''snort[5]:   1  100 1 2 10 5 1 50 5.0 10.0 5.25 0''
        = Some (''1:100:2'', Stats 1 10 5 1 50 5 10 (21 / 4) 0)"
    by code_simp
  then show ?thesis
    using stat_row_iff_prefix_form[of exact_ops "''snort[5]:   1  100 1 2 10 5 1 50 5.0 10.0 5.25 0''"]
    by blast
qed

text \<open>
  C3 as stated fails: the pattern is not anchored at the end of the line, so a line with
  thirteen fields after the identifier is parsed as the row of its first twelve.
\<close>

theorem thirteen_fields_parse:
  "length (removeAll [] (split_on CHR '' '' '' 1 100 1 2 10 5 1 50 5.0 10.0 5.25 0 99'')) = 13 \<and>
   stat_row exact_ops ''snort[5]: 1 100 1 2 10 5 1 50 5.0 10.0 5.25 0 99''
     = Some (''1:100:2'', Stats 1 10 5 1 50 5 10 (21 / 4) 0)"
  by code_simp

subsection \<open>The table of rows and the averages\<close>

lemma fold_stat_line:
  "fold (stat_line ops) ls t = fold (\<lambda>(sig, v). add_row sig v) (List.map_filter (stat_row ops) ls) t"
  by (induction ls arbitrary: t) (auto simp add: stat_line_def split: option.splits)

lemma fold_streams:
  "fold (\<lambda>(k, ls) t. fold f ls t) streams t = fold f (concat (map snd streams)) t"
  by (induction streams arbitrary: t) auto

lemma statsTable_rows:
  "statsTable ops streams = fold (\<lambda>(sig, v). add_row sig v) (rows_of ops streams) []"
proof -
  have "statsTable ops streams = fold (stat_line ops) (concat (map snd streams)) []"
    by (simp add: statsTable_def fold_streams)
  then show ?thesis by (simp add: rows_of_def fold_stat_line)
qed

lemma map_of_add_row:
  "map_of (add_row sig v t) =
   (map_of t)(sig \<mapsto> append_stats (case map_of t sig of None \<Rightarrow> no_stats | Some sT \<Rightarrow> sT) v)"
  by (simp add: add_row_def update_conv' split: option.splits)

lemma distinct_add_row: "distinct (map fst t) \<Longrightarrow> distinct (map fst (add_row sig v t))"
  by (simp add: add_row_def distinct_update split: option.splits)

lemma collect_snoc: "collect (vs @ [v]) = append_stats (collect vs) v"
  by (simp add: collect_def append_stats_def)

lemma collect_Nil: "collect [] = no_stats"
  by (simp add: collect_def no_stats_def)

lemma rows_for_snoc:
  "rows_for sig (rows @ [r]) = (if fst r = sig then rows_for sig rows @ [snd r] else rows_for sig rows)"
  by (simp add: rows_for_def)

lemma rows_for_Nil_iff: "rows_for sig rows = [] \<longleftrightarrow> sig \<notin> fst ` set rows"
  by (auto simp add: rows_for_def filter_empty_conv)

lemma table_invariant:
  "(\<forall>sig. map_of (fold (\<lambda>(sig, v). add_row sig v) rows []) sig =
      (if sig \<in> fst ` set rows then Some (collect (rows_for sig rows)) else None)) \<and>
   distinct (map fst (fold (\<lambda>(sig, v). add_row sig v) rows []))"
proof (induction rows rule: rev_induct)
  case Nil
  show ?case by simp
next
  case (snoc r rows)
  obtain k v where r: "r = (k, v)" by (cases r)
  let ?t = "fold (\<lambda>(sig, v). add_row sig v) rows []"
  from snoc have look: "\<And>sig. map_of ?t sig =
      (if sig \<in> fst ` set rows then Some (collect (rows_for sig rows)) else None)"
    and dist: "distinct (map fst ?t)" by auto
  have nil: "sig \<notin> fst ` set rows \<Longrightarrow> rows_for sig rows = []" for sig
    by (simp add: rows_for_Nil_iff)
  have "map_of (add_row k v ?t) sig =
      (if sig \<in> fst ` set (rows @ [r]) then Some (collect (rows_for sig (rows @ [r]))) else None)" for sig
    using look[of sig] look[of k] nil[of k]
    by (auto simp add: map_of_add_row r rows_for_snoc collect_snoc collect_Nil)
  then show ?case using dist by (simp add: r distinct_add_row)
qed

lemma statsTable_lookup:
  "map_of (statsTable ops streams) sig =
     (if sig \<in> fst ` set (rows_of ops streams)
      then Some (collect (rows_for sig (rows_of ops streams))) else None)"
  using table_invariant[of "rows_of ops streams"] by (simp add: statsTable_rows)

lemma statsTable_distinct: "distinct (map fst (statsTable ops streams))"
  using table_invariant[of "rows_of ops streams"] by (simp add: statsTable_rows)

lemma statsTable_keys: "fst ` set (statsTable ops streams) = fst ` set (rows_of ops streams)"
proof -
  have "dom (map_of (statsTable ops streams)) = fst ` set (rows_of ops streams)"
    by (auto simp add: statsTable_lookup dom_def)
  then show ?thesis by (simp add: dom_map_of_conv_image_fst)
qed

lemma statsTable_entry:
  assumes "(k, sT) \<in> set (statsTable ops streams)"
  shows "sT = collect (rows_for k (rows_of ops streams)) \<and> rows_for k (rows_of ops streams) \<noteq> []"
proof -
  have "map_of (statsTable ops streams) k = Some sT"
    using assms by (simp add: statsTable_distinct)
  then show ?thesis
    by (auto simp add: statsTable_lookup rows_for_Nil_iff split: if_splits)
qed

lemma averages_collect:
  "vs \<noteq> [] \<Longrightarrow> averages ops (collect vs) = Inr (map_stats (mean ops) (collect vs))"
  by (simp add: averages_def collect_def mean1_def mean_def bind_exn_def)

lemma update_fresh: "k \<notin> fst ` set al \<Longrightarrow> AList.update k v al = al @ [(k, v)]"
  by (induction al) auto

lemma avg_loop_map:
  assumes "\<And>k sT. (k, sT) \<in> set t \<Longrightarrow> averages ops sT = Inr (f sT)"
    and "distinct (map fst t)" and "fst ` set t \<inter> fst ` set acc = {}"
  shows "avg_loop ops t acc = Inr (acc @ map (\<lambda>(k, sT). (k, f sT)) t)"
  using assms
proof (induction t arbitrary: acc)
  case Nil
  then show ?case by simp
next
  case (Cons p t)
  obtain k sT where p: "p = (k, sT)" by (cases p)
  have a: "averages ops sT = Inr (f sT)" using Cons.prems(1)[of k sT] p by simp
  have fresh: "k \<notin> fst ` set acc" using Cons.prems(3) p by auto
  have "avg_loop ops t (acc @ [(k, f sT)]) = Inr ((acc @ [(k, f sT)]) @ map (\<lambda>(k, sT). (k, f sT)) t)"
  proof (rule Cons.IH)
    show "\<And>k sT. (k, sT) \<in> set t \<Longrightarrow> averages ops sT = Inr (f sT)" using Cons.prems(1) by auto
    show "distinct (map fst t)" using Cons.prems(2) by simp
    show "fst ` set t \<inter> fst ` set (acc @ [(k, f sT)]) = {}"
      using Cons.prems(2,3) p by auto
  qed
  then show ?case using a p by (simp add: update_fresh[OF fresh])
qed

lemma avgStatsTable_eq:
  "avgStatsTable ops (statsTable ops (logStreams (demux_lines ls))) = Inr (avg_table ops ls)"
proof -
  let ?t = "statsTable ops (logStreams (demux_lines ls))"
  have "avg_loop ops ?t [] = Inr ([] @ map (\<lambda>(k, sT). (k, map_stats (mean ops) sT)) ?t)"
  proof (rule avg_loop_map)
    fix k sT assume "(k, sT) \<in> set ?t"
    from statsTable_entry[OF this] show "averages ops sT = Inr (map_stats (mean ops) sT)"
      using averages_collect by blast
  qed (simp_all add: statsTable_distinct)
  then show ?thesis by (simp add: avgStatsTable_def avg_table_def)
qed

subsection \<open>The printed report\<close>

lemma stat_row_is_sig: "stat_row ops line = Some (sig, v) \<Longrightarrow> is_sig sig"
proof -
  assume a: "stat_row ops line = Some (sig, v)"
  then obtain g where g: "re_match scanStatLine line = Some g" and rv: "row_values ops g = Some (sig, v)"
    by (auto simp add: stat_row_def split: option.splits)
  from re_match_scanStatLine_SomeD[OF g] have "list_all2 has_shape row_shapes g"
    unfolding row_form_def by blast
  from twelve_fields[OF this] rv show ?thesis
    unfolding is_sig_def by (auto simp add: row_values_def) blast
qed

lemma set_map_filter: "set (List.map_filter f xs) = {y. \<exists>x\<in>set xs. f x = Some y}"
  by (induction xs) (auto split: option.splits)

lemma rows_of_is_sig: "(sig, v) \<in> set (rows_of ops streams) \<Longrightarrow> is_sig sig"
  by (auto simp add: rows_of_def set_map_filter dest: stat_row_is_sig)

lemma avg_table_keys: "map fst (avg_table ops ls) = map fst (statsTable ops (logStreams (demux_lines ls)))"
  by (simp add: avg_table_def case_prod_beta comp_def)

lemma avg_table_is_sig: "k \<in> fst ` set (avg_table ops ls) \<Longrightarrow> is_sig k"
proof -
  assume "k \<in> fst ` set (avg_table ops ls)"
  then have "k \<in> set (map fst (avg_table ops ls))" by simp
  then have "k \<in> fst ` set (statsTable ops (logStreams (demux_lines ls)))"
    by (simp add: avg_table_keys)
  then show ?thesis by (auto simp add: statsTable_keys dest: rows_of_is_sig)
qed

lemma split_on_notin: "c \<notin> set a \<Longrightarrow> split_on c a = [a]"
  by (induction a) (auto simp add: Let_def)

lemma split_on_append: "c \<notin> set a \<Longrightarrow> split_on c (a @ c # b) = a # split_on c b"
  by (induction a) (auto simp add: Let_def)

lemma is_int_no_colon: "is_int a \<Longrightarrow> CHR '':'' \<notin> set a"
  by (auto simp add: is_int_def list_all_iff)

lemma split_on_sig:
  "is_int gid \<Longrightarrow> is_int sid \<Longrightarrow> is_int rev' \<Longrightarrow>
   split_on CHR '':'' (gid @ '':'' @ sid @ '':'' @ rev') = [gid, sid, rev']"
  using split_on_append[of "CHR '':''" gid "sid @ '':'' @ rev'"]
        split_on_append[of "CHR '':''" sid rev'] split_on_notin[of "CHR '':''" rev']
  by (simp add: is_int_no_colon)

lemma print_rows_eq:
  "(\<And>k. k \<in> set ks \<Longrightarrow> is_sig k \<and> map_of avg k \<noteq> None) \<Longrightarrow>
   print_rows ops avg ks = (map (print_row ops avg) ks, None)"
proof (induction ks)
  case Nil
  show ?case by simp
next
  case (Cons k ks)
  have "is_sig k" and "map_of avg k \<noteq> None" using Cons.prems[of k] by simp_all
  then obtain gid sid rev' vals where "split_on CHR '':'' k = [gid, sid, rev']" "map_of avg k = Some vals"
    unfolding is_sig_def using split_on_sig by auto
  moreover have "print_rows ops avg ks = (map (print_row ops avg) ks, None)"
    using Cons by simp
  ultimately show ?case by (simp add: print_row_def)
qed

lemma set_sorted_keys: "set (sorted_keys avg) = fst ` set avg"
  by (simp add: sorted_keys_def)

lemma run_lines_eq:
  "run_lines ops ls =
     (report_head (length (logStreams (demux_lines ls)))
      @ map (print_row ops (avg_table ops ls)) (sorted_keys (avg_table ops ls)), None)"
proof -
  have "print_rows ops (avg_table ops ls) (sorted_keys (avg_table ops ls)) =
        (map (print_row ops (avg_table ops ls)) (sorted_keys (avg_table ops ls)), None)"
  proof (rule print_rows_eq)
    fix k assume "k \<in> set (sorted_keys (avg_table ops ls))"
    then have k: "k \<in> fst ` set (avg_table ops ls)" by (simp add: set_sorted_keys)
    then have "map_of (avg_table ops ls) k \<noteq> None"
      by (simp add: map_of_eq_None_iff)
    with avg_table_is_sig[OF k] show "is_sig k \<and> map_of (avg_table ops ls) k \<noteq> None" by simp
  qed
  then show ?thesis by (simp add: run_lines_def avgStatsTable_eq)
qed

lemma no_streams:
  assumes "\<not> list_ex (\<lambda>l. pid_of l \<noteq> None \<and> has_header l) ls"
  shows "logStreams (demux_lines ls) = []"
proof -
  have "\<not> eligible ls p" for p
    using assms by (auto simp add: eligible_def stream_of_def list_ex_iff)
  then have "map_of (logStreams (demux_lines ls)) p = None" for p
    using demux_invariant[of ls] by simp
  then have "map_of (logStreams (demux_lines ls)) = Map.empty"
    by (intro ext)
  then show ?thesis by (simp only: map_of_eq_empty_iff)
qed

lemma report_head_0:
  "report_head 0 =
    ['' Average Rule Profile Statistics (across 0 processes) (all rules)'',
     '' ================================================================'',
     ''    Num      SID GID Rev      Checks     Matches    Alerts           Microsecs Avg/Check Avg/Match Avg/Nonmatch       dis'',
     ''    ===      === === ===      ======     =======    ======           ========= ========= ========= ============       ==='']"
  by code_simp

text \<open>
  C8: on the empty input, and whenever no line carries both a pid and the header literal, the run
  prints the header for 0 processes, its underline of the same length, the column headings and
  their underlines, then no data row, and raises nothing.
\<close>

theorem no_eligible_stream_report:
  assumes "\<not> list_ex (\<lambda>l. pid_of l \<noteq> None \<and> has_header l) ls"
  shows "run_lines ops ls =
    (['' Average Rule Profile Statistics (across 0 processes) (all rules)'',
      '' ================================================================'',
      ''    Num      SID GID Rev      Checks     Matches    Alerts           Microsecs Avg/Check Avg/Match Avg/Nonmatch       dis'',
      ''    ===      === === ===      ======     =======    ======           ========= ========= ========= ============       ===''],
     None)"
  using no_streams[OF assms]
  by (simp add: run_lines_def statsTable_def avgStatsTable_def sorted_keys_def report_head_0)

theorem no_eligible_stream_report_witness:
  "run_lines exact_ops [] =
    (['' Average Rule Profile Statistics (across 0 processes) (all rules)'',
      '' ================================================================'',
      ''    Num      SID GID Rev      Checks     Matches    Alerts           Microsecs Avg/Check Avg/Match Avg/Nonmatch       dis'',
      ''    ===      === === ===      ======     =======    ======           ========= ========= ========= ============       ===''],
     None)"
  using no_eligible_stream_report[of "[]" exact_ops] by simp

lemma logStreams_keys: "fst ` set (logStreams (demux_lines ls)) = {p. eligible ls p}"
proof -
  have "dom (map_of (logStreams (demux_lines ls))) = {p. eligible ls p}"
    using demux_invariant[of ls] by (auto simp add: dom_def)
  then show ?thesis by (simp add: dom_map_of_conv_image_fst)
qed

lemma logStreams_length: "length (logStreams (demux_lines ls)) = card {p. eligible ls p}"
proof -
  have "distinct (map fst (logStreams (demux_lines ls)))"
    using demux_invariant[of ls] by simp
  from distinct_card[OF this] show ?thesis
    by (simp add: logStreams_keys)
qed

text \<open>
  C9: the run raises nothing and the count in the first line printed is the number of distinct
  eligible pids, however many lines of a pid contain the header literal.
\<close>

theorem header_counts_distinct_eligible_pids:
  "snd (run_lines ops ls) = None \<and>
   hd (fst (run_lines ops ls)) =
     '' Average Rule Profile Statistics (across '' @ str_nat (card {p. eligible ls p})
       @ '' processes) (all rules)''"
  by (simp add: run_lines_eq report_head_def Let_def OUTPUT_HEADER_def logStreams_length)

lemma avg_table_lookup:
  "map_of (avg_table ops ls) k =
     (if k \<in> fst ` set (rows_of ops (logStreams (demux_lines ls)))
      then Some (map_stats (mean ops) (collect (rows_for k (rows_of ops (logStreams (demux_lines ls))))))
      else None)"
  by (simp add: avg_table_def map_of_map statsTable_lookup)

lemma rank_mean_collect: "rank (map_stats f (collect vs)) = f (map rank vs)"
  by (simp add: collect_def)

lemma avg_table_distinct: "distinct (map fst (avg_table ops ls))"
  by (simp add: avg_table_keys statsTable_distinct)

lemma avg_table_key_set:
  "fst ` set (avg_table ops ls) = fst ` set (rows_of ops (logStreams (demux_lines ls)))"
  using avg_table_keys[of ops ls] statsTable_keys[of ops "logStreams (demux_lines ls)"]
  by (metis list.set_map)

text \<open>
  C5: the data rows follow the four heading lines, one for each key of \<open>sorted_keys\<close>; down
  these keys the rounded mean rank (the rounded mean of the ranks of all rows parsed for the
  signature) never decreases, no key occurs twice, and the keys are exactly the signatures of
  the rows parsed from the streams.
\<close>

theorem report_rows_sorted_by_mean_rank:
  "run_lines ops ls =
     (report_head (length (logStreams (demux_lines ls)))
      @ map (print_row ops (avg_table ops ls)) (sorted_keys (avg_table ops ls)), None) \<and>
   sorted (map (\<lambda>k. mean ops (map rank (rows_for k (rows_of ops (logStreams (demux_lines ls))))))
               (sorted_keys (avg_table ops ls))) \<and>
   distinct (sorted_keys (avg_table ops ls)) \<and>
   set (sorted_keys (avg_table ops ls)) = fst ` set (rows_of ops (logStreams (demux_lines ls)))"
proof -
  let ?avg = "avg_table ops ls"
  let ?rows = "rows_of ops (logStreams (demux_lines ls))"
  let ?key = "\<lambda>name. rank (the (map_of ?avg name))"
  have s: "sorted (map ?key (sorted_keys ?avg))"
    unfolding sorted_keys_def by (rule sorted_sort_key)
  have e: "map ?key (sorted_keys ?avg) =
      map (\<lambda>k. mean ops (map rank (rows_for k ?rows))) (sorted_keys ?avg)"
  proof (rule map_cong[OF refl])
    fix k assume "k \<in> set (sorted_keys ?avg)"
    then have "k \<in> fst ` set ?rows" by (simp add: set_sorted_keys avg_table_key_set)
    then show "?key k = mean ops (map rank (rows_for k ?rows))"
      by (simp add: avg_table_lookup rank_mean_collect)
  qed
  have 1: "sorted (map (\<lambda>k. mean ops (map rank (rows_for k ?rows))) (sorted_keys ?avg))"
    using s unfolding e .
  have 2: "distinct (sorted_keys ?avg)"
    by (simp add: sorted_keys_def avg_table_distinct)
  have 3: "set (sorted_keys ?avg) = fst ` set ?rows"
    by (simp add: set_sorted_keys avg_table_key_set)
  from 1 2 3 run_lines_eq[of ops ls] show ?thesis by blast
qed

subsection \<open>Interleaving of the streams\<close>


















end
